theory Spec2Isabelle
  imports Main "HOL-Library.Sublist"
begin

section \<open>Strings\<close>

text \<open>
  The program is one TypeScript module. Its strings are modelled as \<^typ>\<open>string\<close>. The
  functions below are the JavaScript string operations the module calls, restricted to
  what it calls them on.
\<close>

text \<open>\<^verbatim>\<open>s.includes(t)\<close>: \<^verbatim>\<open>t\<close> occurs in \<^verbatim>\<open>s\<close> as a contiguous substring.\<close>

fun str_includes :: "string \<Rightarrow> string \<Rightarrow> bool" where
  "str_includes [] t = (t = [])"
| "str_includes (c # s) t = (prefix t (c # s) \<or> str_includes s t)"

text \<open>\<^verbatim>\<open>s.startsWith(t)\<close>.\<close>

definition startsWith :: "string \<Rightarrow> string \<Rightarrow> bool" where
  "startsWith s t = prefix t s"

text \<open>
  \<^verbatim>\<open>s.toLowerCase()\<close> on the ASCII letters. The module only compares the result with
  \<^verbatim>\<open>'all'\<close>, and no character outside \<^verbatim>\<open>A-Z\<close> lower-cases to \<^verbatim>\<open>a\<close> or \<^verbatim>\<open>l\<close>.
\<close>

definition lower_char :: "char \<Rightarrow> char" where
  "lower_char c =
     (if (65::nat) \<le> of_char c \<and> of_char c \<le> (90::nat)
      then char_of (of_char c + (32::nat)) else c)"

definition toLowerCase :: "string \<Rightarrow> string" where
  "toLowerCase s = map lower_char s"

text \<open>The quote characters that the template literals of the module contain.\<close>

definition sq :: string where
  "sq = [CHR 0x27]"

definition dq :: string where
  "dq = [CHR 0x22]"

text \<open>Decimal rendering of a natural number, as \<^verbatim>\<open>String(n)\<close> gives it.\<close>

definition digit_char :: "nat \<Rightarrow> char" where
  "digit_char d = char_of (48 + d)"

fun digits_of :: "nat \<Rightarrow> string" where
  "digits_of n = (if n < 10 then [digit_char n] else digits_of (n div 10) @ [digit_char (n mod 10)])"

declare digits_of.simps [simp del]

definition is_digit :: "char \<Rightarrow> bool" where
  "is_digit c = ((48::nat) \<le> of_char c \<and> of_char c \<le> (57::nat))"

section \<open>The file system\<close>

text \<open>
  The module reads the file system through \<^verbatim>\<open>fs.realpathSync\<close>, \<^verbatim>\<open>fs.readdirSync\<close>,
  \<^verbatim>\<open>fs.lstatSync\<close> and \<^verbatim>\<open>fs.readFileSync\<close>. A file system is a finite table for each
  of the four calls; a path that a table does not hold is one on which the call throws.
  Nothing relates the four tables to each other: every theorem below holds for whatever
  the calls answer, symbolic links and cycles of them included.
\<close>

type_synonym path = string

text \<open>What the module asks of an \<^verbatim>\<open>fs.Stats\<close>: \<^verbatim>\<open>isSymbolicLink()\<close>, \<^verbatim>\<open>isDirectory()\<close>.\<close>

datatype kind = Directory | SymbolicLink | Other

record fsys =
  realpath_tbl :: "(path \<times> path) list"
  readdir_tbl :: "(path \<times> string list) list"
  lstat_tbl :: "(path \<times> kind) list"
  readFile_tbl :: "(path \<times> string) list"

definition realpathSync :: "fsys \<Rightarrow> path \<Rightarrow> path option" where
  "realpathSync fs p = map_of (realpath_tbl fs) p"

definition readdirSync :: "fsys \<Rightarrow> path \<Rightarrow> string list option" where
  "readdirSync fs p = map_of (readdir_tbl fs) p"

definition lstatSync :: "fsys \<Rightarrow> path \<Rightarrow> kind option" where
  "lstatSync fs p = map_of (lstat_tbl fs) p"

definition readFileSync :: "fsys \<Rightarrow> path \<Rightarrow> string option" where
  "readFileSync fs p = map_of (readFile_tbl fs) p"

text \<open>
  \<^verbatim>\<open>path.join(realPath, file)\<close> on POSIX paths, where \<^verbatim>\<open>realPath\<close> is a resolved path
  and \<^verbatim>\<open>file\<close> a directory entry's name: the two joined by one separator.
\<close>

definition path_join :: "path \<Rightarrow> string \<Rightarrow> path" where
  "path_join d f = (if d \<noteq> [] \<and> last d = CHR ''/'' then d @ f else d @ ''/'' @ f)"

text \<open>
  \<^verbatim>\<open>path.extname(file)\<close> of an entry's name: from the last dot to the end; empty when
  there is no dot, when the only dot is the first character, and for \<^verbatim>\<open>..\<close>.
\<close>

definition extname :: "string \<Rightarrow> string" where
  "extname f =
     (let n = length (takeWhile (\<lambda>c. c \<noteq> CHR ''.'') (rev f)) in
      if n = length f then []
      else if n + 1 = length f then []
      else if f = ''..'' then []
      else drop (length f - n - 1) f)"

section \<open>getFiles\<close>

definition extensions :: "string list" where
  "extensions = [''.js'', ''.ts'', ''.jsx'', ''.tsx'', ''.mjs'', ''.cjs'']"

text \<open>The test of line 51 on a subdirectory's path.\<close>

definition skipped :: "path \<Rightarrow> bool" where
  "skipped filePath =
     (str_includes filePath ''node_modules'' \<or> str_includes filePath ''.vscode''
      \<or> str_includes filePath ''.git'')"

text \<open>
  \<^verbatim>\<open>getFiles(dir, visited)\<close>. The set \<^verbatim>\<open>visited\<close> is shared by all the recursive calls
  and mutated, so the model returns it beside the results. \<open>scan\<close> is the
  \<^verbatim>\<open>for (const file of list)\<close> loop, with \<^verbatim>\<open>results\<close> as its accumulator. The two
  calls that can throw inside the \<^verbatim>\<open>try\<close> are \<^verbatim>\<open>realpathSync\<close> and \<^verbatim>\<open>readdirSync\<close>;
  the \<^verbatim>\<open>catch\<close> logs and the function returns the results so far, which are empty at
  both places. The logging is not part of the model.
\<close>

function getFiles :: "fsys \<Rightarrow> path \<Rightarrow> path set \<Rightarrow> path list \<times> path set"
  and scan :: "fsys \<Rightarrow> path \<Rightarrow> string list \<Rightarrow> path set \<Rightarrow> path list \<Rightarrow> path list \<times> path set"
where
  "getFiles fs dir visited =
     (case realpathSync fs dir of
        None \<Rightarrow> ([], visited)
      | Some realPath \<Rightarrow>
          if realPath = [] \<or> realPath \<in> visited then ([], visited)
          else (case readdirSync fs realPath of
                  None \<Rightarrow> ([], insert realPath visited)
                | Some list \<Rightarrow> scan fs realPath list (insert realPath visited) []))"
| "scan fs realPath [] visited results = (results, visited)"
| "scan fs realPath (file # rest) visited results =
     (let filePath = path_join realPath file in
      case lstatSync fs filePath of
        None \<Rightarrow> scan fs realPath rest visited results
      | Some SymbolicLink \<Rightarrow> scan fs realPath rest visited results
      | Some Directory \<Rightarrow>
          if skipped filePath then scan fs realPath rest visited results
          else (case getFiles fs filePath visited of
                  (sub, visited') \<Rightarrow> scan fs realPath rest visited' (results @ sub))
      | Some Other \<Rightarrow>
          if extname file \<in> set extensions
          then scan fs realPath rest visited (results @ [filePath])
          else scan fs realPath rest visited results)"
  by pat_completeness auto

text \<open>
  The loop goes on with the set that the recursive call returns, so its termination needs
  a fact about the function itself: a call only adds to \<^verbatim>\<open>visited\<close>.
\<close>

lemma visited_grows:
  "getFiles_scan_dom (Inl (fs, dir, visited)) \<Longrightarrow> visited \<subseteq> snd (getFiles fs dir visited)"
  "getFiles_scan_dom (Inr (fs, realPath, list, visited, results)) \<Longrightarrow>
     visited \<subseteq> snd (scan fs realPath list visited results)"
proof (induction fs dir visited and fs realPath list visited results
    rule: getFiles_scan.pinduct)
  case (1 fs dir visited)
  then show ?case
    by (auto simp: getFiles.psimps split: option.splits)
next
  case (2 fs realPath visited results)
  then show ?case by (simp add: scan.psimps)
next
  case (3 fs realPath f rest visited results)
  then show ?case
    apply (simp add: scan.psimps Let_def split: option.splits kind.splits prod.splits if_splits)
    apply auto
    apply blast
    done
qed

text \<open>The real paths that \<^verbatim>\<open>realpathSync\<close> can answer: a finite set.\<close>

definition real_paths :: "fsys \<Rightarrow> path set" where
  "real_paths fs = snd ` set (realpath_tbl fs)"

lemma realpathSync_in_real_paths: "realpathSync fs p = Some q \<Longrightarrow> q \<in> real_paths fs"
  by (auto simp: realpathSync_def real_paths_def dest!: map_of_SomeD intro: rev_image_eqI)

lemma finite_real_paths: "finite (real_paths fs)"
  by (simp add: real_paths_def)

text \<open>
  Every call that reads a directory has put a real path into \<^verbatim>\<open>visited\<close> that was not
  there: the number of real paths not yet visited decreases, and within one loop the
  list of entries does.
\<close>

lemma getFiles_scan_total: "All getFiles_scan_dom"
proof (relation "inv_image (less_than <*lex*> less_than)
     (\<lambda>x. case x of
        Inl (fs, dir, visited) \<Rightarrow> (card (real_paths fs - visited), 0)
      | Inr (fs, realPath, list, visited, results) \<Rightarrow>
          (card (real_paths fs - visited), Suc (length list)))", goal_cases)
  case 1
  show ?case by (intro wf_inv_image wf_lex_prod wf_less_than)
next
  case (2 fs dir visited realPath list)
  have "realPath \<in> real_paths fs"
    using 2(1) by (rule realpathSync_in_real_paths)
  moreover have "realPath \<notin> visited" using 2 by simp
  ultimately have "card (real_paths fs - insert realPath visited)
      < card (real_paths fs - visited)"
    by (intro psubset_card_mono) (auto simp: finite_real_paths)
  then show ?case by simp
next
  case 3 then show ?case by simp
next
  case 4 then show ?case by simp
next
  case 5 then show ?case by simp
next
  case (6 fs realPath f rest visited results filePath k sub visited')
  have "visited \<subseteq> visited'"
    using 6 visited_grows(1)[of fs filePath visited] by (metis snd_conv)
  then have "card (real_paths fs - visited') \<le> card (real_paths fs - visited)"
    by (intro card_mono) (auto simp: finite_real_paths)
  then show ?case by auto
next
  case 7 then show ?case by simp
next
  case 8 then show ?case by simp
next
  case 9 then show ?case by simp
qed

termination getFiles
  by (rule getFiles_scan_total)

declare getFiles.simps [simp del] scan.simps [simp del]

section \<open>dependencyUsed and scriptUsed\<close>

definition exclusions :: "string list" where
  "exclusions = [''typescript'']"

text \<open>The seven literal texts of lines 81 to 87, in the order the source tests them.\<close>

definition patterns :: "string \<Rightarrow> string list" where
  "patterns dependency =
     [''require('' @ sq @ dependency @ sq @ '')'',
      ''import '' @ sq @ dependency @ sq,
      ''import '' @ dq @ dependency @ dq,
      ''from '' @ sq @ dependency @ sq,
      ''from '' @ dq @ dependency @ dq,
      ''import('' @ sq @ dependency @ sq @ '')'',
      ''import('' @ dq @ dependency @ dq @ '')'']"

text \<open>
  \<^verbatim>\<open>files.some(callback)\<close> with the callback of lines 73 to 88: it reads the file first
  (\<^verbatim>\<open>readFileSync\<close> throws on a file it cannot read, and nothing catches that: the result
  \<open>None\<close>), then tests the exclusions, then the seven texts. \<^verbatim>\<open>some\<close> stops at the first file
  for which the callback is true, and is false on no file at all.
\<close>

fun some_file :: "fsys \<Rightarrow> string \<Rightarrow> path list \<Rightarrow> bool option" where
  "some_file fs dependency [] = Some False"
| "some_file fs dependency (file # files) =
     (case readFileSync fs file of
        None \<Rightarrow> None
      | Some fileContent \<Rightarrow>
          if dependency \<in> set exclusions \<or> startsWith dependency ''@types/'' then Some True
          else if list_ex (str_includes fileContent) (patterns dependency) then Some True
          else some_file fs dependency files)"

text \<open>\<^verbatim>\<open>dependencyUsed(dependency)\<close>; \<open>cwd\<close> is what \<^verbatim>\<open>process.cwd()\<close> answers.\<close>

definition dependencyUsed :: "fsys \<Rightarrow> path \<Rightarrow> string \<Rightarrow> bool option" where
  "dependencyUsed fs cwd dependency = some_file fs dependency (fst (getFiles fs cwd {}))"

text \<open>
  The manifest \<^verbatim>\<open>package.json\<close> as parsed: three optional objects, each the list of its
  own keys and values in the order \<^verbatim>\<open>Object.keys\<close> enumerates them.
\<close>

record manifest =
  scripts :: "(string \<times> string) list option"
  dependencies :: "(string \<times> string) list option"
  devDependencies :: "(string \<times> string) list option"

text \<open>\<^verbatim>\<open>o || {}\<close> for an optional object.\<close>

definition or_empty :: "(string \<times> string) list option \<Rightarrow> (string \<times> string) list" where
  "or_empty obj = (case obj of None \<Rightarrow> [] | Some kvs \<Rightarrow> kvs)"

definition scriptUsed :: "manifest \<Rightarrow> string \<Rightarrow> bool" where
  "scriptUsed packageJSON dependency =
     list_ex (\<lambda>script. str_includes script dependency) (map snd (or_empty (scripts packageJSON)))"

section \<open>remove\<close>

text \<open>
  \<^verbatim>\<open>remove\<close> starts \<^verbatim>\<open>npm uninstall\<close> with \<^verbatim>\<open>child_process.exec\<close>, which returns at once;
  the callback runs when the command has ended, and starts the next one. The model keeps
  the commands that have been started and have not ended (\<open>inflight\<close>, each with what its
  callback closes over) and everything written or started so far, in order (\<open>out\<close>).
\<close>

text \<open>
  How a command ended, as the callback sees it: \<^verbatim>\<open>err\<close> is null, or it is not and
  \<^verbatim>\<open>stderr\<close> is the text given.
\<close>

datatype exec_result = ExecOk | ExecErr string

text \<open>
  What the module does to the outside: a command started with \<^verbatim>\<open>exec\<close>, a line written
  with \<^verbatim>\<open>console.log\<close>, a call of \<^verbatim>\<open>console.error\<close> with its two arguments,
  \<^verbatim>\<open>readline.clearLine\<close> and \<^verbatim>\<open>readline.cursorTo\<close> on the terminal.
\<close>

datatype event =
    Exec string
  | ConsoleLog string
  | ConsoleError string string
  | ClearLine
  | CursorTo

text \<open>
  An element of the array given to \<^verbatim>\<open>remove\<close> is a string, or \<^verbatim>\<open>undefined\<close> (\<open>None\<close>):
  the type says \<^verbatim>\<open>string[]\<close>, and \<^verbatim>\<open>main\<close> passes what indexing an array gave it.
\<close>

type_synonym jsval = "string option"

text \<open>\<^verbatim>\<open>${dep}\<close> in a template literal.\<close>

definition js_string :: "jsval \<Rightarrow> string" where
  "js_string v = (case v of None \<Rightarrow> ''undefined'' | Some s \<Rightarrow> s)"

text \<open>\<^verbatim>\<open>dependencies[index]\<close>: \<^verbatim>\<open>undefined\<close> outside the array.\<close>

definition js_at :: "jsval list \<Rightarrow> nat \<Rightarrow> jsval" where
  "js_at xs i = (if i < length xs then xs ! i else None)"

record job =
  job_deps :: "jsval list"
  job_global :: bool
  job_startTime :: int
  job_index :: nat

record world =
  out :: "event list"
  inflight :: "job list"

text \<open>
  \<^verbatim>\<open>(ms / 1000).toFixed(2)\<close> for a whole number \<open>ms\<close> of milliseconds. \<^verbatim>\<open>toFixed\<close> takes
  the integer \<open>n\<close> with \<open>n / 100\<close> nearest to the absolute value of the double \<open>ms / 1000\<close>, the
  larger one of two, and writes it with a point before its last two digits, after at
  least one digit, and a minus sign for a negative double. Where \<open>ms\<close> ends in another
  digit than 5, \<open>n\<close> is the nearest integer to \<open>ms / 10\<close>; where it ends in 5, \<open>n\<close> depends on
  the side to which the division rounded the double, which \<open>fl_up\<close> answers (for the
  absolute value of \<open>ms\<close>): the model leaves it open.
\<close>

definition toFixed2 :: "(nat \<Rightarrow> bool) \<Rightarrow> int \<Rightarrow> string" where
  "toFixed2 fl_up ms =
     (let a = nat \<bar>ms\<bar>;
          n = (if a mod 10 < 5 then a div 10
               else if 5 < a mod 10 then a div 10 + 1
               else if fl_up a then a div 10 + 1 else a div 10);
          m = digits_of n;
          m = (if length m \<le> 2 then replicate (3 - length m) (CHR ''0'') @ m else m)
      in (if ms < 0 then ''-'' else []) @
         take (length m - 2) m @ ''.'' @ drop (length m - 2) m)"

text \<open>The command line of line 138 and the summary of line 132.\<close>

definition uninstall_command :: "jsval \<Rightarrow> bool \<Rightarrow> string" where
  "uninstall_command dep global =
     ''npm uninstall '' @ js_string dep @ '' '' @ (if global then ''-g'' else [])"

definition summary :: "(nat \<Rightarrow> bool) \<Rightarrow> nat \<Rightarrow> int \<Rightarrow> string" where
  "summary fl_up count ms =
     [CHR 0x0A] @ ''Removed '' @ digits_of count @ '' dependenc'' @
     (if count > 1 then ''ies'' else ''y'') @ '' in '' @ toFixed2 fl_up ms @ '' seconds.''"

text \<open>
  \<^verbatim>\<open>uninstallNext(index)\<close>, with the variables of \<^verbatim>\<open>remove\<close> that it closes over as
  parameters; \<open>now\<close> is what \<^verbatim>\<open>Date.now()\<close> answers when the summary is written.
\<close>

definition uninstallNext ::
  "(nat \<Rightarrow> bool) \<Rightarrow> jsval list \<Rightarrow> bool \<Rightarrow> int \<Rightarrow> nat \<Rightarrow> int \<Rightarrow> world \<Rightarrow> world" where
  "uninstallNext fl_up deps global startTime index now w =
     (if index \<ge> length deps then
        w\<lparr>out := out w @ [ConsoleLog (summary fl_up (length deps) (now - startTime))]\<rparr>
      else
        w\<lparr>out := out w @ [Exec (uninstall_command (js_at deps index) global)],
          inflight := inflight w @
            [\<lparr>job_deps = deps, job_global = global, job_startTime = startTime,
              job_index = index\<rparr>]\<rparr>)"

text \<open>The callback of \<^verbatim>\<open>exec\<close> (lines 138 to 148), for the command of job \<open>j\<close>.\<close>

definition exec_callback :: "(nat \<Rightarrow> bool) \<Rightarrow> job \<Rightarrow> exec_result \<Rightarrow> int \<Rightarrow> world \<Rightarrow> world" where
  "exec_callback fl_up j res now w =
     (let dep = js_at (job_deps j) (job_index j);
          w' = (case res of
                  ExecErr stderr \<Rightarrow>
                    w\<lparr>out := out w @
                      [ConsoleError ([CHR 0x0A] @ ''Error uninstalling '' @ js_string dep @ '':'')
                         stderr]\<rparr>
                | ExecOk \<Rightarrow>
                    w\<lparr>out := out w @
                      [ClearLine, CursorTo, ConsoleLog (''- Removed '' @ js_string dep)]\<rparr>)
      in uninstallNext fl_up (job_deps j) (job_global j) (job_startTime j) (job_index j + 1) now w')"

text \<open>
  The command at position \<open>k\<close> of those in flight ends with result \<open>res\<close> at time \<open>now\<close>:
  it is no longer in flight, and its callback runs. With no such command nothing happens.
\<close>

definition complete :: "(nat \<Rightarrow> bool) \<Rightarrow> nat \<Rightarrow> exec_result \<Rightarrow> int \<Rightarrow> world \<Rightarrow> world" where
  "complete fl_up k res now w =
     (if k < length (inflight w)
      then exec_callback fl_up (inflight w ! k) res now
             (w\<lparr>inflight := take k (inflight w) @ drop (Suc k) (inflight w)\<rparr>)
      else w)"

text \<open>The oldest command in flight ends, once for each result of the list.\<close>

fun run :: "(nat \<Rightarrow> bool) \<Rightarrow> (exec_result \<times> int) list \<Rightarrow> world \<Rightarrow> world" where
  "run fl_up [] w = w"
| "run fl_up ((res, now) # rest) w = run fl_up rest (complete fl_up 0 res now w)"

text \<open>
  \<^verbatim>\<open>remove(dependencies, global)\<close>, under the name \<open>remove_deps\<close> since \<open>remove\<close> is a
  constant of the library; \<open>now\<close> is the \<^verbatim>\<open>Date.now()\<close> of line 127.
\<close>

definition remove_deps :: "(nat \<Rightarrow> bool) \<Rightarrow> jsval list \<Rightarrow> bool \<Rightarrow> int \<Rightarrow> world \<Rightarrow> world" where
  "remove_deps fl_up deps global now w =
     (if length deps = 0 then w else uninstallNext fl_up deps global now 0 now w)"

section \<open>main\<close>

text \<open>
  Of \<^verbatim>\<open>main\<close> the model has the two computations that the properties below are about:
  the candidates and the unused dependencies (lines 163 and 164), and the callback of
  \<^verbatim>\<open>rl.question\<close> (lines 172 to 184), which takes the two lists \<^verbatim>\<open>unused\<close> and \<^verbatim>\<open>global\<close> as
  they are when the question is asked. The listing, \<^verbatim>\<open>getGlobal\<close> and the question itself
  (lines 165 to 170) are not modelled.
\<close>

text \<open>Lines 163 and 164. \<open>None\<close>: \<^verbatim>\<open>dependencyUsed\<close> threw for one of the candidates.\<close>

definition allDeps :: "manifest \<Rightarrow> string list" where
  "allDeps packageJSON =
     map fst (or_empty (dependencies packageJSON)) @
     map fst (or_empty (devDependencies packageJSON))"

fun filter_unused :: "fsys \<Rightarrow> path \<Rightarrow> manifest \<Rightarrow> string list \<Rightarrow> string list option" where
  "filter_unused fs cwd packageJSON [] = Some []"
| "filter_unused fs cwd packageJSON (dep # deps) =
     (case dependencyUsed fs cwd dep of
        None \<Rightarrow> None
      | Some used \<Rightarrow>
          (case filter_unused fs cwd packageJSON deps of
             None \<Rightarrow> None
           | Some rest \<Rightarrow>
               Some (if \<not> used \<and> \<not> scriptUsed packageJSON dep then dep # rest else rest)))"

definition unused_deps :: "fsys \<Rightarrow> path \<Rightarrow> manifest \<Rightarrow> string list option" where
  "unused_deps fs cwd packageJSON = filter_unused fs cwd packageJSON (allDeps packageJSON)"

text \<open>
  \<^verbatim>\<open>answer.match(/\d/g)\<close>: the decimal digits of the answer, one match each, or \<^verbatim>\<open>null\<close>
  when there is none.
\<close>

definition match_digits :: "string \<Rightarrow> string option" where
  "match_digits answer =
     (let ds = filter is_digit answer in if ds = [] then None else Some ds)"

text \<open>\<^verbatim>\<open>+n\<close> for a one-digit string, and \<^verbatim>\<open>xs[i]\<close> for a number \<open>i\<close>.\<close>

definition digit_value :: "char \<Rightarrow> int" where
  "digit_value c = int (of_char c) - 48"

definition js_index :: "string list \<Rightarrow> int \<Rightarrow> jsval" where
  "js_index xs i = (if 0 \<le> i \<and> i < int (length xs) then Some (xs ! nat i) else None)"

text \<open>\<^verbatim>\<open>[...new Set(xs)]\<close>: the first occurrence of each value, in order.\<close>

fun set_add :: "'a list \<Rightarrow> 'a list \<Rightarrow> 'a list" where
  "set_add acc [] = acc"
| "set_add acc (x # xs) = set_add (if x \<in> set acc then acc else acc @ [x]) xs"

definition new_Set :: "'a list \<Rightarrow> 'a list" where
  "new_Set xs = set_add [] xs"

text \<open>Line 180.\<close>

definition selectedDeps :: "string list \<Rightarrow> string list \<Rightarrow> string \<Rightarrow> jsval list" where
  "selectedDeps unused global answer =
     new_Set (case match_digits answer of
                None \<Rightarrow> []
              | Some ds \<Rightarrow> map (\<lambda>n. js_index (unused @ global) (digit_value n - 1)) ds)"

text \<open>\<^verbatim>\<open>global.includes(dep)\<close>: \<^verbatim>\<open>undefined\<close> is no element of an array of strings.\<close>

definition global_includes :: "string list \<Rightarrow> jsval \<Rightarrow> bool" where
  "global_includes global dep = (case dep of None \<Rightarrow> False | Some s \<Rightarrow> s \<in> set global)"

text \<open>
  The callback of \<^verbatim>\<open>rl.question\<close> (lines 172 to 184); \<open>t1\<close> and \<open>t2\<close> are what \<^verbatim>\<open>Date.now()\<close>
  answers in the first and in the second call of \<^verbatim>\<open>remove\<close>.
\<close>

definition on_answer ::
  "(nat \<Rightarrow> bool) \<Rightarrow> string list \<Rightarrow> string list \<Rightarrow> string \<Rightarrow> int \<Rightarrow> int \<Rightarrow> world \<Rightarrow> world" where
  "on_answer fl_up unused global answer t1 t2 w =
     (if toLowerCase answer = ''all'' then
        remove_deps fl_up (map Some global) True t2
          (remove_deps fl_up (map Some unused) False t1 w)
      else
        let selected = selectedDeps unused global answer in
        remove_deps fl_up (filter (\<lambda>dep. global_includes global dep) selected) True t2
          (remove_deps fl_up (filter (\<lambda>dep. \<not> global_includes global dep) selected) False t1 w))"

section \<open>Notions of the statements\<close>

text \<open>
  A path of a directory that is not a symbolic link, made of a resolved path and an
  entry's name, resolves to itself. The predicate says so of the two tables.
\<close>

definition dirs_resolved :: "fsys \<Rightarrow> bool" where
  "dirs_resolved fs =
     list_all (\<lambda>(p, k). k = Directory \<longrightarrow>
        (case realpathSync fs p of None \<Rightarrow> True | Some q \<Rightarrow> q = p)) (lstat_tbl fs)"

text \<open>The names of directory entries hold no separator.\<close>

definition plain_names :: "fsys \<Rightarrow> bool" where
  "plain_names fs =
     list_all (\<lambda>(d, names). list_all (\<lambda>n. CHR ''/'' \<notin> set n) names) (readdir_tbl fs)"

text \<open>
  The file \<open>f\<close> lies beneath the path \<open>p\<close>: the path, a separator, and more.
\<close>

definition beneath :: "path \<Rightarrow> path \<Rightarrow> bool" where
  "beneath f p = prefix (p @ ''/'') f"

text \<open>
  What the trace holds for one item: the command, then the confirmation (after the two
  cursor calls) when it succeeded, or the error line with the command's error output.
\<close>

definition item_report :: "bool \<Rightarrow> jsval \<Rightarrow> exec_result \<Rightarrow> event list" where
  "item_report global dep res =
     Exec (uninstall_command dep global) #
     (case res of
        ExecOk \<Rightarrow> [ClearLine, CursorTo, ConsoleLog (''- Removed '' @ js_string dep)]
      | ExecErr stderr \<Rightarrow>
          [ConsoleError ([CHR 0x0A] @ ''Error uninstalling '' @ js_string dep @ '':'') stderr])"

text \<open>
  A text of digits, a point and two digits: at least one digit before the point.
\<close>

definition two_decimals :: "string \<Rightarrow> bool" where
  "two_decimals s =
     (let n = length s in
      4 \<le> n \<and> list_all is_digit (take (n - 3) s) \<and> s ! (n - 3) = CHR ''.''
      \<and> list_all is_digit (drop (n - 2) s))"

text \<open>The strings of a selection, without the \<^verbatim>\<open>undefined\<close> entries.\<close>

fun defined_entries :: "jsval list \<Rightarrow> string list" where
  "defined_entries [] = []"
| "defined_entries (None # sel) = defined_entries sel"
| "defined_entries (Some s # sel) = s # defined_entries sel"

text \<open>A digit from 1 to the length of the list: one with an entry at its position.\<close>

definition in_range :: "string list \<Rightarrow> char \<Rightarrow> bool" where
  "in_range xs c = (is_digit c \<and> 1 \<le> digit_value c \<and> digit_value c \<le> int (length xs))"

section \<open>Example inputs\<close>

text \<open>
  A project directory \<^verbatim>\<open>/p\<close> with a source file, a symbolic link \<^verbatim>\<open>loop\<close> back to \<^verbatim>\<open>/p\<close>
  and two symbolic links \<^verbatim>\<open>x\<close> and \<^verbatim>\<open>y\<close> to each other, on which \<^verbatim>\<open>realpathSync\<close> throws.
\<close>

definition fs_cycle :: fsys where
  "fs_cycle =
     \<lparr>realpath_tbl = [(''/p'', ''/p''), (''/p/loop'', ''/p'')],
      readdir_tbl = [(''/p'', [''a.js'', ''loop'', ''x'', ''y''])],
      lstat_tbl = [(''/p/a.js'', Other), (''/p/loop'', SymbolicLink),
                   (''/p/x'', SymbolicLink), (''/p/y'', SymbolicLink)],
      readFile_tbl = [(''/p/a.js'', ''let a = 1'')]\<rparr>"

text \<open>
  A project with sources in \<^verbatim>\<open>/p\<close> and \<^verbatim>\<open>/p/src\<close>, and with \<^verbatim>\<open>node_modules\<close> and
  \<^verbatim>\<open>.git\<close> directories that hold JavaScript files.
\<close>

definition fs_project :: fsys where
  "fs_project =
     \<lparr>realpath_tbl = [(''/p'', ''/p''), (''/p/src'', ''/p/src''),
                      (''/p/node_modules'', ''/p/node_modules''), (''/p/.git'', ''/p/.git'')],
      readdir_tbl = [(''/p'', [''a.js'', ''src'', ''node_modules'', ''.git'', ''package.json'']),
                     (''/p/src'', [''b.ts'', ''notes.txt'']),
                     (''/p/node_modules'', [''x.js'']),
                     (''/p/.git'', [''hook.js''])],
      lstat_tbl = [(''/p/a.js'', Other), (''/p/src'', Directory),
                   (''/p/node_modules'', Directory), (''/p/.git'', Directory),
                   (''/p/package.json'', Other), (''/p/src/b.ts'', Other),
                   (''/p/src/notes.txt'', Other), (''/p/node_modules/x.js'', Other),
                   (''/p/.git/hook.js'', Other)],
      readFile_tbl = [(''/p/a.js'', ''import '' @ sq @ ''lodash'' @ sq),
                      (''/p/src/b.ts'', ''export {}'')]\<rparr>"

text \<open>A project whose own directory is \<^verbatim>\<open>/w/.github\<close>.\<close>

definition fs_dotgit_root :: fsys where
  "fs_dotgit_root =
     \<lparr>realpath_tbl = [(''/w/.github'', ''/w/.github''), (''/w/.github/src'', ''/w/.github/src'')],
      readdir_tbl = [(''/w/.github'', [''a.js'', ''src'']), (''/w/.github/src'', [''b.js''])],
      lstat_tbl = [(''/w/.github/a.js'', Other), (''/w/.github/src'', Directory),
                   (''/w/.github/src/b.js'', Other)],
      readFile_tbl = []\<rparr>"

text \<open>A project with no file of the six extensions.\<close>

definition fs_no_sources :: fsys where
  "fs_no_sources =
     \<lparr>realpath_tbl = [(''/p'', ''/p'')],
      readdir_tbl = [(''/p'', [''package.json'', ''README.md''])],
      lstat_tbl = [(''/p/package.json'', Other), (''/p/README.md'', Other)],
      readFile_tbl = [(''/p/package.json'', ''{}'')]\<rparr>"

text \<open>A project whose one source file is the text \<^verbatim>\<open>import 'lodash-es'\<close>.\<close>

definition fs_lodash_es :: fsys where
  "fs_lodash_es =
     \<lparr>realpath_tbl = [(''/p'', ''/p'')],
      readdir_tbl = [(''/p'', [''index.js''])],
      lstat_tbl = [(''/p/index.js'', Other)],
      readFile_tbl = [(''/p/index.js'', ''import '' @ sq @ ''lodash-es'' @ sq)]\<rparr>"

text \<open>The manifest of the specification's example, and one that names a package twice.\<close>

definition manifest_ab :: manifest where
  "manifest_ab = \<lparr>scripts = Some [(''build'', ''tsc'')],
      dependencies = Some [(''a'', ''1.0.0'')], devDependencies = Some [(''b'', ''1.0.0'')]\<rparr>"

definition manifest_twice :: manifest where
  "manifest_twice = \<lparr>scripts = None,
      dependencies = Some [(''left-pad'', ''1.0.0'')], devDependencies = Some [(''left-pad'', ''1.3.0'')]\<rparr>"

text \<open>An environment for the examples: the division rounds upwards, and nothing has run.\<close>

definition round_up :: "nat \<Rightarrow> bool" where
  "round_up a = True"

definition idle :: world where
  "idle = \<lparr>out = [], inflight = []\<rparr>"

section \<open>Properties of getFiles\<close>

lemma visited_mono: "visited \<subseteq> snd (getFiles fs dir visited)"
  by (rule visited_grows(1)) (simp add: getFiles_scan_total[THEN spec])

lemma visited_bound:
  "snd (getFiles fs dir visited) \<subseteq> visited \<union> real_paths fs"
  "snd (scan fs realPath list visited results) \<subseteq> visited \<union> real_paths fs"
proof (induction fs dir visited and fs realPath list visited results
    rule: getFiles_scan.induct)
  case (1 fs dir visited)
  then show ?case
    by (auto simp: getFiles.simps[of fs dir visited] split: option.splits
        dest: realpathSync_in_real_paths)
next
  case (2 fs realPath visited results)
  then show ?case by (simp add: scan.simps)
next
  case (3 fs realPath f rest visited results)
  then show ?case
    apply (simp add: scan.simps Let_def split: option.splits kind.splits prod.splits if_splits)
    apply auto
    apply blast
    done
qed

text \<open>
  Claim C4. For every answer of the file system calls, \<^verbatim>\<open>getFiles\<close> terminates: its
  argument is in the accessible part of the relation of its recursive calls. The calls
  only add real paths to \<^verbatim>\<open>visited\<close>, of which there are finitely many; a directory whose
  real path is in \<^verbatim>\<open>visited\<close> is not read again; and the loop passes over an entry that is
  a symbolic link.
\<close>

theorem getFiles_terminates:
  "getFiles_scan_dom (Inl (fs, dir, visited))
   \<and> visited \<subseteq> snd (getFiles fs dir visited)
   \<and> snd (getFiles fs dir visited) \<subseteq> visited \<union> real_paths fs
   \<and> finite (real_paths fs)
   \<and> (realpathSync fs dir = Some realPath \<and> realPath \<in> visited
        \<longrightarrow> getFiles fs dir visited = ([], visited))
   \<and> (lstatSync fs (path_join realPath file) = Some SymbolicLink
        \<longrightarrow> scan fs realPath (file # rest) visited results
            = scan fs realPath rest visited results)"
proof (intro conjI impI)
  show "getFiles_scan_dom (Inl (fs, dir, visited))"
    using getFiles_scan_total by blast
  show "visited \<subseteq> snd (getFiles fs dir visited)"
    by (rule visited_mono)
  show "snd (getFiles fs dir visited) \<subseteq> visited \<union> real_paths fs"
    by (rule visited_bound)
  show "finite (real_paths fs)"
    by (rule finite_real_paths)
  show "getFiles fs dir visited = ([], visited)"
    if "realpathSync fs dir = Some realPath \<and> realPath \<in> visited"
    using that by (simp add: getFiles.simps[of fs dir visited])
  show "scan fs realPath (file # rest) visited results = scan fs realPath rest visited results"
    if "lstatSync fs (path_join realPath file) = Some SymbolicLink"
    using that by (simp add: scan.simps)
qed

theorem getFiles_terminates_witness:
  "getFiles_scan_dom (Inl (fs_cycle, ''/p/loop'', {''/p''}))
   \<and> realpathSync fs_cycle ''/p/loop'' = Some ''/p''
   \<and> getFiles fs_cycle ''/p/loop'' {''/p''} = ([], {''/p''})
   \<and> lstatSync fs_cycle (path_join ''/p'' ''loop'') = Some SymbolicLink
   \<and> scan fs_cycle ''/p'' [''loop''] {''/p''} [] = ([], {''/p''})
   \<and> getFiles fs_cycle ''/p'' {} = ([''/p/a.js''], {''/p''})"
proof -
  have r: "realpathSync fs_cycle ''/p/loop'' = Some ''/p''"
    by (simp add: fs_cycle_def realpathSync_def)
  have l: "lstatSync fs_cycle (path_join ''/p'' ''loop'') = Some SymbolicLink"
    by (simp add: fs_cycle_def lstatSync_def path_join_def)
  have g: "getFiles fs_cycle ''/p'' {} = ([''/p/a.js''], {''/p''})"
    by code_simp
  show ?thesis
    using getFiles_terminates[of fs_cycle "''/p/loop''" "{''/p''}" "''/p''" "''loop''" "[]" "[]"] r l g
    by (simp add: scan.simps)
qed

lemma dirs_resolvedD:
  "dirs_resolved fs \<Longrightarrow> lstatSync fs p = Some Directory \<Longrightarrow> realpathSync fs p = Some q
   \<Longrightarrow> q = p"
  by (auto simp: dirs_resolved_def lstatSync_def list_all_iff dest!: map_of_SomeD)

lemma str_includes_sublist: "str_includes s t \<longleftrightarrow> sublist t s"
  by (induction s) (auto simp: sublist_Cons_right)

lemma str_includes_prefix: "str_includes p t \<Longrightarrow> prefix p d \<Longrightarrow> str_includes d t"
  unfolding str_includes_sublist
  by (meson prefix_imp_sublist sublist_order.order_trans)

lemma skipped_prefix: "skipped p \<Longrightarrow> prefix p d \<Longrightarrow> skipped d"
  unfolding skipped_def by (blast intro: str_includes_prefix)

lemma plain_namesD:
  "plain_names fs \<Longrightarrow> readdirSync fs d = Some names \<Longrightarrow> n \<in> set names \<Longrightarrow> CHR ''/'' \<notin> set n"
  by (auto simp: plain_names_def readdirSync_def list_all_iff dest!: map_of_SomeD)

text \<open>
  Where a returned file lies: it is an entry of a directory that was read, and this is the
  directory the call was given (resolved), or one whose path passed the test of line 51.
\<close>

lemma results_origin:
  "dirs_resolved fs \<Longrightarrow> f \<in> set (fst (getFiles fs dir visited)) \<Longrightarrow>
     \<exists>d names n. f = path_join d n \<and> readdirSync fs d = Some names \<and> n \<in> set names
       \<and> (realpathSync fs dir = Some d \<or> \<not> skipped d)"
  "dirs_resolved fs \<Longrightarrow> f \<in> set (fst (scan fs realPath list visited results)) \<Longrightarrow>
     f \<in> set results \<or> (\<exists>n \<in> set list. f = path_join realPath n)
     \<or> (\<exists>d names n. f = path_join d n \<and> readdirSync fs d = Some names \<and> n \<in> set names
           \<and> \<not> skipped d)"
proof (induction fs dir visited and fs realPath list visited results
    rule: getFiles_scan.induct)
  case (1 fs dir visited)
  from "1.prems"(2) obtain realPath list where
    rp: "realpathSync fs dir = Some realPath" "\<not> (realPath = [] \<or> realPath \<in> visited)"
    and rd: "readdirSync fs realPath = Some list"
    and f: "f \<in> set (fst (scan fs realPath list (insert realPath visited) []))"
    by (auto simp: getFiles.simps[of fs dir visited] split: option.splits if_splits)
  from "1.IH"[OF rp rd "1.prems"(1) f] rp rd show ?case by auto
next
  case (2 fs realPath visited results)
  then show ?case by (simp add: scan.simps)
next
  case (3 fs realPath name rest visited results)
  show ?case
  proof (cases "lstatSync fs (path_join realPath name)")
    case None
    then show ?thesis using 3 by (simp add: scan.simps) blast
  next
    case (Some k)
    show ?thesis
    proof (cases k)
      case Directory
      show ?thesis
      proof (cases "skipped (path_join realPath name)")
        case True
        then show ?thesis using 3 Some Directory by (simp add: scan.simps) blast
      next
        case False
        obtain sub visited' where
          g: "getFiles fs (path_join realPath name) visited = (sub, visited')"
          by (cases "getFiles fs (path_join realPath name) visited")
        have "f \<in> set (fst (scan fs realPath rest visited' (results @ sub)))"
          using "3.prems"(2) Some Directory False g by (simp add: scan.simps)
        then have "f \<in> set (results @ sub) \<or> (\<exists>n \<in> set rest. f = path_join realPath n)
            \<or> (\<exists>d names n. f = path_join d n \<and> readdirSync fs d = Some names \<and> n \<in> set names
                  \<and> \<not> skipped d)"
          using "3.IH"(4)[OF refl Some Directory False g[symmetric] "3.prems"(1)] by simp
        moreover have "\<exists>d names n. f = path_join d n \<and> readdirSync fs d = Some names
            \<and> n \<in> set names \<and> \<not> skipped d" if "f \<in> set sub"
        proof -
          from that g have "f \<in> set (fst (getFiles fs (path_join realPath name) visited))"
            by simp
          from "3.IH"(3)[OF refl Some Directory False "3.prems"(1) this]
          obtain d names n where "f = path_join d n" "readdirSync fs d = Some names" "n \<in> set names"
            "realpathSync fs (path_join realPath name) = Some d \<or> \<not> skipped d"
            by blast
          then show ?thesis
            using dirs_resolvedD[OF "3.prems"(1)] Some Directory False by blast
        qed
        ultimately show ?thesis by auto
      qed
    next
      case SymbolicLink
      then show ?thesis using 3 Some by (simp add: scan.simps) blast
    next
      case Other
      then show ?thesis using 3 Some by (auto simp add: scan.simps split: if_splits)
    qed
  qed
qed

lemma prefix_snoc_append:
  assumes "prefix (a @ [c]) (b @ n)" and "c \<notin> set n"
  shows "prefix (a @ [c]) b"
proof -
  from assms(1) consider "prefix (a @ [c]) b" | us where "a @ [c] = b @ us" "prefix us n"
    by (auto simp: prefix_append)
  then show ?thesis
  proof cases
    case 1
    then show ?thesis .
  next
    case 2
    show ?thesis
    proof (cases "us = []")
      case True
      then show ?thesis using 2 by simp
    next
      case False
      then have "last us = c" using 2(1) by (metis last_appendR last_snoc)
      then have "c \<in> set us" using False by (metis last_in_set)
      then have "c \<in> set n" using 2(2) by (meson set_mono_prefix subsetD)
      then show ?thesis using assms(2) by simp
    qed
  qed
qed

lemma beneath_join:
  assumes "beneath (path_join d n) p" and "CHR ''/'' \<notin> set n"
  shows "prefix p d"
proof (cases "d \<noteq> [] \<and> last d = CHR ''/''")
  case True
  then have "prefix (p @ [CHR ''/'']) (d @ n)"
    using assms(1) by (simp add: beneath_def path_join_def)
  then have "prefix (p @ [CHR ''/'']) d"
    using assms(2) by (rule prefix_snoc_append)
  then show ?thesis by (meson append_prefixD)
next
  case False
  then have "path_join d n = (d @ [CHR ''/'']) @ n"
    by (auto simp: path_join_def)
  then have "prefix (p @ [CHR ''/'']) ((d @ [CHR ''/'']) @ n)"
    using assms(1) by (simp add: beneath_def)
  then have "prefix (p @ [CHR ''/'']) (d @ [CHR ''/''])"
    using assms(2) by (rule prefix_snoc_append)
  then show ?thesis by (auto simp: prefix_snoc dest: append_prefixD)
qed

text \<open>
  Claim C6, as the code has it. The test of line 51 is made on the subdirectories that the
  loop meets, never on the directory \<^verbatim>\<open>getFiles\<close> is called with. So a returned file lies
  beneath a path that contains one of the three texts only if it is an entry of the
  starting directory itself and the path of the starting directory contains the text;
  from every other directory whose path contains one, nothing is returned.
\<close>

theorem getFiles_skips_subdirectories:
  assumes "dirs_resolved fs" and "plain_names fs"
    and "f \<in> set (fst (getFiles fs dir visited))"
    and "skipped p" and "beneath f p"
  shows "\<exists>root n. realpathSync fs dir = Some root \<and> skipped root
           \<and> f = path_join root n \<and> CHR ''/'' \<notin> set n"
proof -
  from results_origin(1)[OF assms(1,3)] obtain d names n where
    f: "f = path_join d n" and names: "readdirSync fs d = Some names" "n \<in> set names"
    and d: "realpathSync fs dir = Some d \<or> \<not> skipped d"
    by blast
  have n: "CHR ''/'' \<notin> set n"
    using assms(2) names by (rule plain_namesD)
  have "prefix p d"
    using assms(5) n unfolding f by (rule beneath_join)
  then have "skipped d"
    using assms(4) skipped_prefix by blast
  then show ?thesis
    using d f n by blast
qed

theorem getFiles_skips_subdirectories_witness:
  "dirs_resolved fs_dotgit_root \<and> plain_names fs_dotgit_root
   \<and> fst (getFiles fs_dotgit_root ''/w/.github'' {}) = [''/w/.github/a.js'']
   \<and> skipped ''/w/.github'' \<and> beneath ''/w/.github/a.js'' ''/w/.github''
   \<and> (\<exists>root n. realpathSync fs_dotgit_root ''/w/.github'' = Some root \<and> skipped root
           \<and> ''/w/.github/a.js'' = path_join root n \<and> CHR ''/'' \<notin> set n)
   \<and> dirs_resolved fs_project \<and> plain_names fs_project
   \<and> fst (getFiles fs_project ''/p'' {}) = [''/p/a.js'', ''/p/src/b.ts'']
   \<and> lstatSync fs_project ''/p/node_modules/x.js'' = Some Other"
proof -
  have h: "dirs_resolved fs_dotgit_root" "plain_names fs_dotgit_root"
    "skipped ''/w/.github''" "beneath ''/w/.github/a.js'' ''/w/.github''"
    by code_simp+
  have g: "fst (getFiles fs_dotgit_root ''/w/.github'' {}) = [''/w/.github/a.js'']"
    by code_simp
  have m: "''/w/.github/a.js'' \<in> set (fst (getFiles fs_dotgit_root ''/w/.github'' {}))"
    by (simp add: g)
  have p: "dirs_resolved fs_project" "plain_names fs_project"
    "fst (getFiles fs_project ''/p'' {}) = [''/p/a.js'', ''/p/src/b.ts'']"
    "lstatSync fs_project ''/p/node_modules/x.js'' = Some Other"
    by code_simp+
  show ?thesis
    using getFiles_skips_subdirectories[OF h(1,2) m h(3,4)] h g p by simp
qed

text \<open>
  The claim as the specification words it fails where the starting directory's own path
  holds one of the texts: \<^verbatim>\<open>/w/.github\<close> contains \<^verbatim>\<open>.git\<close>, and the file \<^verbatim>\<open>a.js\<close> beneath
  it is returned.
\<close>

theorem getFiles_root_not_tested_counterexample:
  "skipped ''/w/.github''
   \<and> beneath ''/w/.github/a.js'' ''/w/.github''
   \<and> fst (getFiles fs_dotgit_root ''/w/.github'' {}) = [''/w/.github/a.js'']"
  by code_simp

lemma results_kind:
  "f \<in> set (fst (getFiles fs dir visited)) \<Longrightarrow>
     \<exists>d names n. f = path_join d n \<and> readdirSync fs d = Some names \<and> n \<in> set names
       \<and> lstatSync fs f = Some Other \<and> extname n \<in> set extensions"
  "f \<in> set (fst (scan fs realPath list visited results)) \<Longrightarrow>
     f \<in> set results
     \<or> (\<exists>n \<in> set list. f = path_join realPath n \<and> lstatSync fs f = Some Other
           \<and> extname n \<in> set extensions)
     \<or> (\<exists>d names n. f = path_join d n \<and> readdirSync fs d = Some names \<and> n \<in> set names
           \<and> lstatSync fs f = Some Other \<and> extname n \<in> set extensions)"
proof (induction fs dir visited and fs realPath list visited results
    rule: getFiles_scan.induct)
  case (1 fs dir visited)
  from "1.prems" obtain realPath list where
    rp: "realpathSync fs dir = Some realPath" "\<not> (realPath = [] \<or> realPath \<in> visited)"
    and rd: "readdirSync fs realPath = Some list"
    and f: "f \<in> set (fst (scan fs realPath list (insert realPath visited) []))"
    by (auto simp: getFiles.simps[of fs dir visited] split: option.splits if_splits)
  from "1.IH"[OF rp rd f] rd show ?case by auto
next
  case (2 fs realPath visited results)
  then show ?case by (simp add: scan.simps)
next
  case (3 fs realPath name rest visited results)
  show ?case
  proof (cases "lstatSync fs (path_join realPath name)")
    case None
    then show ?thesis using 3 by (simp add: scan.simps) blast
  next
    case (Some k)
    show ?thesis
    proof (cases k)
      case Directory
      show ?thesis
      proof (cases "skipped (path_join realPath name)")
        case True
        then show ?thesis using 3 Some Directory by (simp add: scan.simps) blast
      next
        case False
        obtain sub visited' where
          g: "getFiles fs (path_join realPath name) visited = (sub, visited')"
          by (cases "getFiles fs (path_join realPath name) visited")
        have "f \<in> set (fst (scan fs realPath rest visited' (results @ sub)))"
          using "3.prems" Some Directory False g by (simp add: scan.simps)
        from "3.IH"(4)[OF refl Some Directory False g[symmetric] this]
        have "f \<in> set results \<or> f \<in> set sub
            \<or> (\<exists>n \<in> set rest. f = path_join realPath n \<and> lstatSync fs f = Some Other
                  \<and> extname n \<in> set extensions)
            \<or> (\<exists>d names n. f = path_join d n \<and> readdirSync fs d = Some names \<and> n \<in> set names
                  \<and> lstatSync fs f = Some Other \<and> extname n \<in> set extensions)"
          by auto
        moreover have "\<exists>d names n. f = path_join d n \<and> readdirSync fs d = Some names
            \<and> n \<in> set names \<and> lstatSync fs f = Some Other \<and> extname n \<in> set extensions"
          if "f \<in> set sub"
        proof -
          from that g have "f \<in> set (fst (getFiles fs (path_join realPath name) visited))"
            by simp
          from "3.IH"(3)[OF refl Some Directory False this] show ?thesis .
        qed
        ultimately show ?thesis by auto
      qed
    next
      case SymbolicLink
      then show ?thesis using 3 Some by (simp add: scan.simps) blast
    next
      case Other
      show ?thesis
      proof (cases "extname name \<in> set extensions")
        case True
        then have "f \<in> set (fst (scan fs realPath rest visited (results @ [path_join realPath name])))"
          using "3.prems" Some Other by (simp add: scan.simps)
        from "3.IH"(6)[OF refl Some Other True this] show ?thesis
          using Some Other True by auto
      next
        case False
        then show ?thesis using 3 Some Other by (auto simp add: scan.simps)
      qed
    qed
  qed
qed

text \<open>
  What \<^verbatim>\<open>getFiles\<close> returns: entries of directories it has read that are neither
  directories nor symbolic links, with a name that ends in one of the six extensions.
\<close>

theorem getFiles_returns_sources:
  assumes "f \<in> set (fst (getFiles fs dir visited))"
  shows "\<exists>d names n. f = path_join d n \<and> readdirSync fs d = Some names \<and> n \<in> set names
           \<and> lstatSync fs f = Some Other
           \<and> extname n \<in> set [''.js'', ''.ts'', ''.jsx'', ''.tsx'', ''.mjs'', ''.cjs'']"
  using results_kind(1)[OF assms] by (simp add: extensions_def)

theorem getFiles_returns_sources_witness:
  "''/p/src/b.ts'' \<in> set (fst (getFiles fs_project ''/p'' {}))
   \<and> (\<exists>d names n. ''/p/src/b.ts'' = path_join d n \<and> readdirSync fs_project d = Some names
         \<and> n \<in> set names \<and> lstatSync fs_project ''/p/src/b.ts'' = Some Other
         \<and> extname n \<in> set [''.js'', ''.ts'', ''.jsx'', ''.tsx'', ''.mjs'', ''.cjs''])
   \<and> ''/p/src/notes.txt'' \<notin> set (fst (getFiles fs_project ''/p'' {}))"
proof -
  have g: "fst (getFiles fs_project ''/p'' {}) = [''/p/a.js'', ''/p/src/b.ts'']"
    by code_simp
  have m: "''/p/src/b.ts'' \<in> set (fst (getFiles fs_project ''/p'' {}))"
    by (simp add: g)
  have n: "''/p/src/notes.txt'' \<notin> set (fst (getFiles fs_project ''/p'' {}))"
    by (simp add: g)
  show ?thesis
    using getFiles_returns_sources[OF m] m n by blast
qed

section \<open>Properties of dependencyUsed\<close>

text \<open>
  Claim C2. The test for the exclusion list and for the prefix \<^verbatim>\<open>@types/\<close> stands inside the
  callback of \<^verbatim>\<open>files.some\<close>, so it is made once per collected file and never when there
  is none: in a project with no candidate source file \<^verbatim>\<open>dependencyUsed\<close> answers false for
  \<^verbatim>\<open>typescript\<close> and for \<^verbatim>\<open>@types/node\<close>.
\<close>

theorem dependencyUsed_excluded_without_files:
  "fst (getFiles fs_no_sources ''/p'' {}) = []
   \<and> ''typescript'' \<in> set exclusions
   \<and> dependencyUsed fs_no_sources ''/p'' ''typescript'' = Some False
   \<and> startsWith ''@types/node'' ''@types/''
   \<and> dependencyUsed fs_no_sources ''/p'' ''@types/node'' = Some False"
  by code_simp

text \<open>\<^verbatim>\<open>some\<close> over files that can all be read, for a name that is not presumed used.\<close>

lemma some_file_readable:
  assumes "\<forall>file \<in> set files. readFileSync fs file \<noteq> None"
    and "dependency \<notin> set exclusions" and "\<not> startsWith dependency ''@types/''"
  shows "some_file fs dependency files =
     Some (\<exists>file \<in> set files. \<exists>fileContent. readFileSync fs file = Some fileContent
             \<and> list_ex (str_includes fileContent) (patterns dependency))"
  using assms by (induction files) (auto split: option.splits)

text \<open>
  Claim C7. For a name that is not excluded and does not start with \<^verbatim>\<open>@types/\<close>, and
  collected files that can all be read, \<^verbatim>\<open>dependencyUsed\<close> is true exactly when the text of
  some collected file contains one of the seven texts built from the name. A file that
  contains \<^verbatim>\<open>import 'lodash'\<close> makes it true for \<^verbatim>\<open>lodash\<close>; with the one file
  \<^verbatim>\<open>import 'lodash-es'\<close> it is false for \<^verbatim>\<open>lodash\<close>.
\<close>

theorem dependencyUsed_iff_pattern:
  "(dependency \<notin> set exclusions \<and> \<not> startsWith dependency ''@types/''
     \<and> (\<forall>file \<in> set (fst (getFiles fs cwd {})). readFileSync fs file \<noteq> None)
    \<longrightarrow> dependencyUsed fs cwd dependency =
          Some (\<exists>file \<in> set (fst (getFiles fs cwd {})). \<exists>fileContent.
                  readFileSync fs file = Some fileContent
                  \<and> (\<exists>text \<in> set (patterns dependency). str_includes fileContent text)))
   \<and> patterns dependency =
       [''require('' @ sq @ dependency @ sq @ '')'', ''import '' @ sq @ dependency @ sq,
        ''import '' @ dq @ dependency @ dq, ''from '' @ sq @ dependency @ sq,
        ''from '' @ dq @ dependency @ dq, ''import('' @ sq @ dependency @ sq @ '')'',
        ''import('' @ dq @ dependency @ dq @ '')'']
   \<and> ((\<forall>file \<in> set (fst (getFiles fs cwd {})). readFileSync fs file \<noteq> None)
       \<and> file \<in> set (fst (getFiles fs cwd {})) \<and> readFileSync fs file = Some fileContent
       \<and> str_includes fileContent (''import '' @ sq @ ''lodash'' @ sq)
      \<longrightarrow> dependencyUsed fs cwd ''lodash'' = Some True)
   \<and> (fst (getFiles fs cwd {}) = [file]
       \<and> readFileSync fs file = Some (''import '' @ sq @ ''lodash-es'' @ sq)
      \<longrightarrow> dependencyUsed fs cwd ''lodash'' = Some False)"
proof (intro conjI impI)
  have lodash: "''lodash'' \<notin> set exclusions" "\<not> startsWith ''lodash'' ''@types/''"
    by (simp_all add: exclusions_def startsWith_def)
  show "dependencyUsed fs cwd dependency =
          Some (\<exists>file \<in> set (fst (getFiles fs cwd {})). \<exists>fileContent.
                  readFileSync fs file = Some fileContent
                  \<and> (\<exists>text \<in> set (patterns dependency). str_includes fileContent text))"
    if "dependency \<notin> set exclusions \<and> \<not> startsWith dependency ''@types/''
     \<and> (\<forall>file \<in> set (fst (getFiles fs cwd {})). readFileSync fs file \<noteq> None)"
    using that some_file_readable[of "fst (getFiles fs cwd {})" fs dependency]
    by (simp add: dependencyUsed_def list_ex_iff)
  show "patterns dependency =
       [''require('' @ sq @ dependency @ sq @ '')'', ''import '' @ sq @ dependency @ sq,
        ''import '' @ dq @ dependency @ dq, ''from '' @ sq @ dependency @ sq,
        ''from '' @ dq @ dependency @ dq, ''import('' @ sq @ dependency @ sq @ '')'',
        ''import('' @ dq @ dependency @ dq @ '')'']"
    by (simp add: patterns_def)
  show "dependencyUsed fs cwd ''lodash'' = Some True"
    if h: "(\<forall>file \<in> set (fst (getFiles fs cwd {})). readFileSync fs file \<noteq> None)
       \<and> file \<in> set (fst (getFiles fs cwd {})) \<and> readFileSync fs file = Some fileContent
       \<and> str_includes fileContent (''import '' @ sq @ ''lodash'' @ sq)"
  proof -
    have "list_ex (str_includes fileContent) (patterns ''lodash'')"
      using h by (simp add: patterns_def)
    then show ?thesis
      using h lodash some_file_readable[of "fst (getFiles fs cwd {})" fs "''lodash''"]
      by (auto simp: dependencyUsed_def)
  qed
  show "dependencyUsed fs cwd ''lodash'' = Some False"
    if h: "fst (getFiles fs cwd {}) = [file]
       \<and> readFileSync fs file = Some (''import '' @ sq @ ''lodash-es'' @ sq)"
  proof -
    have "\<not> list_ex (str_includes (''import '' @ sq @ ''lodash-es'' @ sq)) (patterns ''lodash'')"
      by code_simp
    then show ?thesis
      using h lodash by (simp add: dependencyUsed_def)
  qed
qed

theorem dependencyUsed_iff_pattern_witness:
  "''lodash'' \<notin> set exclusions \<and> \<not> startsWith ''lodash'' ''@types/''
   \<and> fst (getFiles fs_project ''/p'' {}) = [''/p/a.js'', ''/p/src/b.ts'']
   \<and> readFileSync fs_project ''/p/a.js'' = Some (''import '' @ sq @ ''lodash'' @ sq)
   \<and> readFileSync fs_project ''/p/src/b.ts'' = Some ''export {}''
   \<and> dependencyUsed fs_project ''/p'' ''lodash'' = Some True
   \<and> fst (getFiles fs_lodash_es ''/p'' {}) = [''/p/index.js'']
   \<and> readFileSync fs_lodash_es ''/p/index.js'' = Some (''import '' @ sq @ ''lodash-es'' @ sq)
   \<and> dependencyUsed fs_lodash_es ''/p'' ''lodash'' = Some False"
proof -
  have g: "fst (getFiles fs_project ''/p'' {}) = [''/p/a.js'', ''/p/src/b.ts'']"
    by code_simp
  have r1: "readFileSync fs_project ''/p/a.js'' = Some (''import '' @ sq @ ''lodash'' @ sq)"
    by (simp add: fs_project_def readFileSync_def)
  have r2: "readFileSync fs_project ''/p/src/b.ts'' = Some ''export {}''"
    by (simp add: fs_project_def readFileSync_def)
  have g': "fst (getFiles fs_lodash_es ''/p'' {}) = [''/p/index.js'']"
    by code_simp
  have r': "readFileSync fs_lodash_es ''/p/index.js'' = Some (''import '' @ sq @ ''lodash-es'' @ sq)"
    by (simp add: fs_lodash_es_def readFileSync_def)
  have i: "str_includes (''import '' @ sq @ ''lodash'' @ sq) (''import '' @ sq @ ''lodash'' @ sq)"
    by code_simp
  have t: "dependencyUsed fs_project ''/p'' ''lodash'' = Some True"
    using dependencyUsed_iff_pattern[of "''lodash''" fs_project "''/p''" "''/p/a.js''"
        "''import '' @ sq @ ''lodash'' @ sq"] g r1 r2 i
    by simp
  have f: "dependencyUsed fs_lodash_es ''/p'' ''lodash'' = Some False"
    using dependencyUsed_iff_pattern[of "''lodash''" fs_lodash_es "''/p''" "''/p/index.js''"] g' r'
    by simp
  show ?thesis
    using g r1 r2 t g' r' f by (simp add: exclusions_def startsWith_def)
qed

section \<open>Properties of the unused computation\<close>

lemma filter_unused_filter:
  assumes "\<forall>dep \<in> set deps. dependencyUsed fs cwd dep \<noteq> None"
  shows "filter_unused fs cwd packageJSON deps =
     Some (filter (\<lambda>dep. dependencyUsed fs cwd dep = Some False \<and> \<not> scriptUsed packageJSON dep) deps)"
  using assms by (induction deps) (auto split: option.splits)

text \<open>
  Claim C9. The candidates are the keys of \<^verbatim>\<open>dependencies\<close> followed by the keys of
  \<^verbatim>\<open>devDependencies\<close>, a name of both twice; where \<^verbatim>\<open>dependencyUsed\<close> returns for every
  candidate, the unused ones are the candidates that are neither used nor named in a
  script, in the candidates' order. For the manifest with \<^verbatim>\<open>a\<close> in \<^verbatim>\<open>dependencies\<close> and \<^verbatim>\<open>b\<close>
  in \<^verbatim>\<open>devDependencies\<close>, no collected file holding one of the seven texts for \<^verbatim>\<open>a\<close> or
  \<^verbatim>\<open>b\<close> and no script naming either, the result is \<^verbatim>\<open>a\<close>, \<^verbatim>\<open>b\<close> in this order.
\<close>

theorem unused_in_manifest_order:
  "allDeps packageJSON =
     map fst (or_empty (dependencies packageJSON)) @ map fst (or_empty (devDependencies packageJSON))
   \<and> length (allDeps packageJSON) =
       length (or_empty (dependencies packageJSON)) + length (or_empty (devDependencies packageJSON))
   \<and> ((\<forall>dep \<in> set (allDeps packageJSON). dependencyUsed fs cwd dep \<noteq> None)
      \<longrightarrow> unused_deps fs cwd packageJSON =
           Some (filter (\<lambda>dep. dependencyUsed fs cwd dep = Some False \<and> \<not> scriptUsed packageJSON dep)
                   (allDeps packageJSON)))
   \<and> (dependencies packageJSON = Some [(''a'', ''1.0.0'')]
       \<and> devDependencies packageJSON = Some [(''b'', ''1.0.0'')]
       \<and> (\<forall>file \<in> set (fst (getFiles fs cwd {})). \<exists>fileContent.
             readFileSync fs file = Some fileContent
             \<and> \<not> list_ex (str_includes fileContent) (patterns ''a'')
             \<and> \<not> list_ex (str_includes fileContent) (patterns ''b''))
       \<and> \<not> scriptUsed packageJSON ''a'' \<and> \<not> scriptUsed packageJSON ''b''
      \<longrightarrow> unused_deps fs cwd packageJSON = Some [''a'', ''b''])"
proof (intro conjI impI)
  show "allDeps packageJSON =
     map fst (or_empty (dependencies packageJSON)) @ map fst (or_empty (devDependencies packageJSON))"
    by (simp add: allDeps_def)
  show "length (allDeps packageJSON) =
       length (or_empty (dependencies packageJSON)) + length (or_empty (devDependencies packageJSON))"
    by (simp add: allDeps_def)
  show "unused_deps fs cwd packageJSON =
           Some (filter (\<lambda>dep. dependencyUsed fs cwd dep = Some False \<and> \<not> scriptUsed packageJSON dep)
                   (allDeps packageJSON))"
    if "\<forall>dep \<in> set (allDeps packageJSON). dependencyUsed fs cwd dep \<noteq> None"
    using that unfolding unused_deps_def by (rule filter_unused_filter)
  show "unused_deps fs cwd packageJSON = Some [''a'', ''b'']"
    if h: "dependencies packageJSON = Some [(''a'', ''1.0.0'')]
       \<and> devDependencies packageJSON = Some [(''b'', ''1.0.0'')]
       \<and> (\<forall>file \<in> set (fst (getFiles fs cwd {})). \<exists>fileContent.
             readFileSync fs file = Some fileContent
             \<and> \<not> list_ex (str_includes fileContent) (patterns ''a'')
             \<and> \<not> list_ex (str_includes fileContent) (patterns ''b''))
       \<and> \<not> scriptUsed packageJSON ''a'' \<and> \<not> scriptUsed packageJSON ''b''"
  proof -
    have readable: "\<forall>file \<in> set (fst (getFiles fs cwd {})). readFileSync fs file \<noteq> None"
      using h by auto
    have ex: "''a'' \<notin> set exclusions" "\<not> startsWith ''a'' ''@types/''"
      "''b'' \<notin> set exclusions" "\<not> startsWith ''b'' ''@types/''"
      by (simp_all add: exclusions_def startsWith_def)
    have a: "dependencyUsed fs cwd ''a'' = Some False"
      unfolding dependencyUsed_def some_file_readable[OF readable ex(1,2)]
      using h by auto
    have b: "dependencyUsed fs cwd ''b'' = Some False"
      unfolding dependencyUsed_def some_file_readable[OF readable ex(3,4)]
      using h by auto
    have "allDeps packageJSON = [''a'', ''b'']"
      using h by (simp add: allDeps_def or_empty_def)
    then show ?thesis
      using a b h by (simp add: unused_deps_def)
  qed
qed

theorem unused_in_manifest_order_witness:
  "dependencies manifest_ab = Some [(''a'', ''1.0.0'')]
   \<and> devDependencies manifest_ab = Some [(''b'', ''1.0.0'')]
   \<and> fst (getFiles fs_project ''/p'' {}) = [''/p/a.js'', ''/p/src/b.ts'']
   \<and> \<not> scriptUsed manifest_ab ''a'' \<and> \<not> scriptUsed manifest_ab ''b''
   \<and> unused_deps fs_project ''/p'' manifest_ab = Some [''a'', ''b'']
   \<and> allDeps manifest_twice = [''left-pad'', ''left-pad'']
   \<and> unused_deps fs_project ''/p'' manifest_twice = Some [''left-pad'', ''left-pad'']"
proof -
  have g: "fst (getFiles fs_project ''/p'' {}) = [''/p/a.js'', ''/p/src/b.ts'']"
    by code_simp
  have files: "\<forall>file \<in> set (fst (getFiles fs_project ''/p'' {})). \<exists>fileContent.
             readFileSync fs_project file = Some fileContent
             \<and> \<not> list_ex (str_includes fileContent) (patterns ''a'')
             \<and> \<not> list_ex (str_includes fileContent) (patterns ''b'')"
  proof -
    have "\<not> list_ex (str_includes (''import '' @ sq @ ''lodash'' @ sq)) (patterns ''a'')"
      "\<not> list_ex (str_includes (''import '' @ sq @ ''lodash'' @ sq)) (patterns ''b'')"
      "\<not> list_ex (str_includes ''export {}'') (patterns ''a'')"
      "\<not> list_ex (str_includes ''export {}'') (patterns ''b'')"
      by code_simp+
    then show ?thesis
      unfolding g by (simp add: fs_project_def readFileSync_def)
  qed
  have s: "\<not> scriptUsed manifest_ab ''a''" "\<not> scriptUsed manifest_ab ''b''"
    by code_simp+
  have m: "dependencies manifest_ab = Some [(''a'', ''1.0.0'')]"
    "devDependencies manifest_ab = Some [(''b'', ''1.0.0'')]"
    by (simp_all add: manifest_ab_def)
  have u: "unused_deps fs_project ''/p'' manifest_ab = Some [''a'', ''b'']"
    using unused_in_manifest_order[of manifest_ab fs_project "''/p''"] m files s by blast
  have t: "allDeps manifest_twice = [''left-pad'', ''left-pad'']"
    "unused_deps fs_project ''/p'' manifest_twice = Some [''left-pad'', ''left-pad'']"
    by code_simp+
  show ?thesis
    using m g s u t by simp
qed

section \<open>Properties of remove\<close>

text \<open>
  Claim C10. \<^verbatim>\<open>remove\<close> called with an empty list leaves the world as it was: it starts no
  command and writes nothing, so no summary line either.
\<close>

theorem remove_empty_does_nothing:
  "remove_deps fl_up [] global now w = w
   \<and> out (remove_deps fl_up [] global now w) = out w
   \<and> inflight (remove_deps fl_up [] global now w) = inflight w"
  by (simp add: remove_deps_def)

lemma is_digit_digit_char: "d < 10 \<Longrightarrow> is_digit (digit_char d)"
  by (simp add: is_digit_def digit_char_def)

lemma digits_of_digits: "list_all is_digit (digits_of n)"
proof (induction n rule: digits_of.induct)
  case (1 n)
  show ?case
  proof (cases "n < 10")
    case True
    then show ?thesis by (simp add: digits_of.simps[of n] is_digit_digit_char)
  next
    case False
    then show ?thesis using 1 by (simp add: digits_of.simps[of n] is_digit_digit_char)
  qed
qed

lemma digits_of_nonempty: "digits_of n \<noteq> []"
  by (simp add: digits_of.simps[of n])

lemma two_decimalsI:
  assumes "a \<noteq> []" "length b = 2" "list_all is_digit a" "list_all is_digit b"
  shows "two_decimals (a @ ''.'' @ b)"
proof -
  have "Suc 0 \<le> length a" using assms(1) by (cases a) auto
  then show ?thesis
    using assms by (simp add: two_decimals_def nth_append)
qed

lemma toFixed2_two_decimals: "0 \<le> ms \<Longrightarrow> two_decimals (toFixed2 fl_up ms)"
proof -
  assume ms: "0 \<le> ms"
  define n where "n = (if nat \<bar>ms\<bar> mod 10 < 5 then nat \<bar>ms\<bar> div 10
               else if 5 < nat \<bar>ms\<bar> mod 10 then nat \<bar>ms\<bar> div 10 + 1
               else if fl_up (nat \<bar>ms\<bar>) then nat \<bar>ms\<bar> div 10 + 1 else nat \<bar>ms\<bar> div 10)"
  define m where "m = (if length (digits_of n) \<le> 2
      then replicate (3 - length (digits_of n)) (CHR ''0'') @ digits_of n else digits_of n)"
  have len: "3 \<le> length m"
    by (auto simp: m_def)
  have dig: "list_all is_digit m"
    using digits_of_digits[of n] by (auto simp: m_def list_all_iff is_digit_def)
  have "toFixed2 fl_up ms =
      (if ms < 0 then ''-'' else []) @ take (length m - 2) m @ ''.'' @ drop (length m - 2) m"
    by (simp only: toFixed2_def Let_def n_def m_def)
  then have eq: "toFixed2 fl_up ms = take (length m - 2) m @ ''.'' @ drop (length m - 2) m"
    using ms by simp
  have "take (length m - 2) m \<noteq> []" using len by auto
  moreover have "length (drop (length m - 2) m) = 2" using len by auto
  moreover have "list_all is_digit (take (length m - 2) m)"
    using dig by (auto simp: list_all_iff dest: in_set_takeD)
  moreover have "list_all is_digit (drop (length m - 2) m)"
    using dig by (auto simp: list_all_iff dest: in_set_dropD)
  ultimately show ?thesis
    unfolding eq by (rule two_decimalsI)
qed

lemma run_chain:
  assumes "inflight w = []" "i \<le> length deps" "length rs = length deps - i"
  shows "run fl_up rs (uninstallNext fl_up deps global t0 i now w) =
     w\<lparr>out := out w
          @ concat (map (\<lambda>(dep, res, t). item_report global dep res) (zip (drop i deps) rs))
          @ [ConsoleLog (summary fl_up (length deps) (last (now # map snd rs) - t0))]\<rparr>"
  using assms
proof (induction rs arbitrary: i now w)
  case Nil
  then show ?case by (simp add: uninstallNext_def)
next
  case (Cons r rest)
  obtain res t where r: "r = (res, t)" by (cases r)
  from Cons.prems have i: "i < length deps" by simp
  define w' where "w' = w\<lparr>out := out w @ item_report global (deps ! i) res\<rparr>"
  have step: "complete fl_up 0 res t (uninstallNext fl_up deps global t0 i now w)
      = uninstallNext fl_up deps global t0 (Suc i) t w'"
    using i Cons.prems(1)
    by (cases res)
      (simp_all add: uninstallNext_def complete_def exec_callback_def Let_def js_at_def
        item_report_def w'_def)
  have w': "inflight w' = []" using Cons.prems(1) by (simp add: w'_def)
  have "run fl_up (r # rest) (uninstallNext fl_up deps global t0 i now w)
      = run fl_up rest (uninstallNext fl_up deps global t0 (Suc i) t w')"
    by (simp add: r step)
  also have "\<dots> = w'\<lparr>out := out w'
          @ concat (map (\<lambda>(dep, res, t). item_report global dep res) (zip (drop (Suc i) deps) rest))
          @ [ConsoleLog (summary fl_up (length deps) (last (t # map snd rest) - t0))]\<rparr>"
    using Cons.prems i by (intro Cons.IH[OF w']) simp_all
  also have "\<dots> = w\<lparr>out := out w
          @ concat (map (\<lambda>(dep, res, t). item_report global dep res) (zip (drop i deps) (r # rest)))
          @ [ConsoleLog (summary fl_up (length deps) (last (now # map snd (r # rest)) - t0))]\<rparr>"
    using i by (simp add: w'_def r Cons_nth_drop_Suc[symmetric])
  finally show ?case .
qed

lemma toFixed2_sign:
  "toFixed2 fl_up ms = (if ms < 0 then ''-'' else []) @ toFixed2 fl_up \<bar>ms\<bar>"
proof -
  have "\<not> \<bar>ms\<bar> < 0" by simp
  then show ?thesis
    by (simp only: toFixed2_def Let_def abs_abs if_False append_Nil)
qed

text \<open>
  Claim C8, as the code has it. \<^verbatim>\<open>remove\<close> is given \<open>n \<ge> 1\<close> names and no other command is
  in flight; the commands end one after the other with any results \<open>rs\<close>. Then the trace
  holds, for each name in order, its command and then its confirmation or its error line,
  whatever the results before it were; after the last one the summary line with the
  count \<open>n\<close> of all names and the elapsed time; and no command is left in flight. The
  elapsed time is the reading of \<^verbatim>\<open>Date.now()\<close> in the last callback minus the reading at
  the start: it is written with two decimal places, after a minus sign when it is
  negative, and it is not negative when the clock has not gone back between the two
  readings.
\<close>

theorem remove_reports_every_item:
  assumes "deps \<noteq> []" and "length rs = length deps" and "inflight w = []"
  shows "run fl_up rs (remove_deps fl_up deps global now w) =
           w\<lparr>out := out w
                @ concat (map (\<lambda>(dep, res, t). item_report global dep res) (zip deps rs))
                @ [ConsoleLog (summary fl_up (length deps) (snd (last rs) - now))]\<rparr>
         \<and> summary fl_up (length deps) (snd (last rs) - now) =
             [CHR 0x0A] @ ''Removed '' @ digits_of (length deps) @ '' dependenc'' @
             (if length deps > 1 then ''ies'' else ''y'') @ '' in '' @
             toFixed2 fl_up (snd (last rs) - now) @ '' seconds.''
         \<and> toFixed2 fl_up (snd (last rs) - now) =
             (if snd (last rs) - now < 0 then ''-'' else [])
             @ toFixed2 fl_up \<bar>snd (last rs) - now\<bar>
         \<and> two_decimals (toFixed2 fl_up \<bar>snd (last rs) - now\<bar>)
         \<and> (now \<le> snd (last rs) \<longrightarrow>
               0 \<le> snd (last rs) - now
               \<and> two_decimals (toFixed2 fl_up (snd (last rs) - now)))"
proof -
  have rs: "rs \<noteq> []" using assms(1,2) by auto
  then have l: "last (now # map snd rs) = snd (last rs)"
    by (simp add: last_map)
  have "run fl_up rs (remove_deps fl_up deps global now w)
      = run fl_up rs (uninstallNext fl_up deps global now 0 now w)"
    using assms(1) by (simp add: remove_deps_def)
  also have "\<dots> = w\<lparr>out := out w
                @ concat (map (\<lambda>(dep, res, t). item_report global dep res) (zip (drop 0 deps) rs))
                @ [ConsoleLog (summary fl_up (length deps) (last (now # map snd rs) - now))]\<rparr>"
    using assms by (intro run_chain) simp_all
  finally have trace: "run fl_up rs (remove_deps fl_up deps global now w) =
           w\<lparr>out := out w
                @ concat (map (\<lambda>(dep, res, t). item_report global dep res) (zip deps rs))
                @ [ConsoleLog (summary fl_up (length deps) (snd (last rs) - now))]\<rparr>"
    by (simp only: l drop_0)
  have line: "summary fl_up (length deps) (snd (last rs) - now) =
             [CHR 0x0A] @ ''Removed '' @ digits_of (length deps) @ '' dependenc'' @
             (if length deps > 1 then ''ies'' else ''y'') @ '' in '' @
             toFixed2 fl_up (snd (last rs) - now) @ '' seconds.''"
    by (simp add: summary_def)
  have sign: "toFixed2 fl_up (snd (last rs) - now) =
             (if snd (last rs) - now < 0 then ''-'' else [])
             @ toFixed2 fl_up \<bar>snd (last rs) - now\<bar>"
    by (rule toFixed2_sign)
  have places: "two_decimals (toFixed2 fl_up \<bar>snd (last rs) - now\<bar>)"
    by (rule toFixed2_two_decimals) simp
  have forward: "0 \<le> snd (last rs) - now
      \<and> two_decimals (toFixed2 fl_up (snd (last rs) - now))" if "now \<le> snd (last rs)"
    using that toFixed2_two_decimals[of "snd (last rs) - now" fl_up] by simp
  from trace line sign places forward show ?thesis
    by (intro conjI impI) blast+
qed

theorem remove_reports_every_item_witness:
  "run round_up [(ExecOk, 1200), (ExecErr ''ENOENT'', 2400), (ExecOk, 3456)]
     (remove_deps round_up [Some ''a'', Some ''b'', Some ''c''] False 1000 idle)
   = \<lparr>out = [Exec ''npm uninstall a '', ClearLine, CursorTo, ConsoleLog ''- Removed a'',
            Exec ''npm uninstall b '',
            ConsoleError ([CHR 0x0A] @ ''Error uninstalling b:'') ''ENOENT'',
            Exec ''npm uninstall c '', ClearLine, CursorTo, ConsoleLog ''- Removed c'',
            ConsoleLog ([CHR 0x0A] @ ''Removed 3 dependencies in 2.46 seconds.'')],
       inflight = []\<rparr>
   \<and> (1000::int) \<le> 3456
   \<and> (0::int) \<le> 3456 - 1000
   \<and> two_decimals (toFixed2 round_up (3456 - 1000))
   \<and> toFixed2 round_up (3456 - 1000) = ''2.46''"
proof -
  have t: "toFixed2 round_up 2456 = ''2.46''" by code_simp
  have d: "digits_of (Suc (Suc (Suc 0))) = ''3''" by code_simp
  show ?thesis
    using remove_reports_every_item[of "[Some ''a'', Some ''b'', Some ''c'']"
        "[(ExecOk, 1200), (ExecErr ''ENOENT'', 2400), (ExecOk, 3456)]"
        idle round_up False 1000]
    by (simp add: item_report_def uninstall_command_def js_string_def summary_def idle_def t d)
qed

text \<open>
  The claim as the specification words it fails where the clock goes back while the
  command runs: with the reading 5000 at the start and 3770 in the callback, the elapsed
  time is negative and the summary says so.
\<close>

theorem remove_elapsed_negative_counterexample:
  "run round_up [(ExecOk, 3770)] (remove_deps round_up [Some ''a''] False 5000 idle)
   = \<lparr>out = [Exec ''npm uninstall a '', ClearLine, CursorTo, ConsoleLog ''- Removed a'',
            ConsoleLog ([CHR 0x0A] @ ''Removed 1 dependency in -1.23 seconds.'')],
       inflight = []\<rparr>
   \<and> (3770::int) - 5000 < 0"
  by code_simp

lemma uninstallNext_inflight:
  "length (inflight (uninstallNext fl_up deps global t0 i now w)) \<le> Suc (length (inflight w))"
  by (simp add: uninstallNext_def)

lemma complete_inflight:
  "length (inflight (complete fl_up k res now w)) \<le> length (inflight w)"
proof (cases "k < length (inflight w)")
  case True
  have "length (inflight (complete fl_up k res now w))
      \<le> Suc (length (take k (inflight w) @ drop (Suc k) (inflight w)))"
    using True
    by (cases res) (simp_all add: complete_def exec_callback_def Let_def uninstallNext_def)
  also have "\<dots> = length (inflight w)"
    using True by simp
  finally show ?thesis .
next
  case False
  then show ?thesis by (simp add: complete_def)
qed

lemma run_inflight: "length (inflight (run fl_up rs w)) \<le> length (inflight w)"
proof (induction rs arbitrary: w)
  case Nil
  then show ?case by simp
next
  case (Cons r rs)
  obtain res t where r: "r = (res, t)" by (cases r)
  have "length (inflight (run fl_up rs (complete fl_up 0 res t w)))
      \<le> length (inflight (complete fl_up 0 res t w))"
    by (rule Cons.IH)
  also have "\<dots> \<le> length (inflight w)"
    by (rule complete_inflight)
  finally show ?case by (simp add: r)
qed

text \<open>
  Within one call of \<^verbatim>\<open>remove\<close> at most one command is in flight, whatever commands
  end and in whatever number: the next command is started by the callback of the one
  before.
\<close>

theorem one_remove_one_in_flight:
  assumes "inflight w = []"
  shows "length (inflight (run fl_up rs (remove_deps fl_up deps global now w))) \<le> 1"
proof -
  have "length (inflight (run fl_up rs (remove_deps fl_up deps global now w)))
      \<le> length (inflight (remove_deps fl_up deps global now w))"
    by (rule run_inflight)
  also have "\<dots> \<le> 1"
    using assms by (simp add: remove_deps_def uninstallNext_def)
  finally show ?thesis .
qed

theorem one_remove_one_in_flight_witness:
  "inflight idle = []
   \<and> length (inflight (run round_up [(ExecOk, 5)]
        (remove_deps round_up [Some ''a'', Some ''b''] False 0 idle))) = 1"
proof -
  have "length (inflight (run round_up [(ExecOk, 5)]
        (remove_deps round_up [Some ''a'', Some ''b''] False 0 idle))) = 1"
    by code_simp
  then show ?thesis
    using one_remove_one_in_flight[of idle round_up "[(ExecOk, 5)]" "[Some ''a'', Some ''b'']" False 0]
    by (simp add: idle_def)
qed

section \<open>Properties of the selection\<close>

lemma set_defined_entries: "s \<in> set (defined_entries sel) \<longleftrightarrow> Some s \<in> set sel"
  by (induction sel rule: defined_entries.induct) auto

lemma defined_entries_append:
  "defined_entries (xs @ ys) = defined_entries xs @ defined_entries ys"
  by (induction xs rule: defined_entries.induct) auto

lemma defined_entries_set_add:
  "defined_entries (set_add acc xs) = set_add (defined_entries acc) (defined_entries xs)"
proof (induction xs arbitrary: acc)
  case Nil
  then show ?case by simp
next
  case (Cons x xs)
  show ?case
  proof (cases x)
    case None
    then show ?thesis
      by (simp add: Cons.IH defined_entries_append)
  next
    case (Some s)
    then show ?thesis
      by (simp add: Cons.IH defined_entries_append set_defined_entries)
  qed
qed

lemma set_add_distinct: "distinct acc \<Longrightarrow> distinct (set_add acc xs)"
  by (induction xs arbitrary: acc) auto

lemma defined_lookups:
  "defined_entries (map (\<lambda>n. js_index xs (digit_value n - 1)) (filter is_digit answer))
     = map (\<lambda>n. xs ! nat (digit_value n - 1)) (filter (in_range xs) answer)"
  by (induction answer) (auto simp: js_index_def in_range_def)

text \<open>
  Claim C1, as the code has it. The selection is computed from the single decimal digits
  of the answer, in order: the strings in it are the entries at the 1-based positions of
  the digits that have an entry in \<^verbatim>\<open>unused\<close> followed by \<^verbatim>\<open>global\<close>, each string once, at
  its first occurrence. On five entries the answer \<^verbatim>\<open>2,4\<close> selects the entries at the
  0-based indices 1 and 3 and nothing else; the answer \<^verbatim>\<open>2,10\<close> is read as the digits 2, 1
  and 0, and the strings it selects are the entries at the indices 1 and 0.
\<close>

theorem selection_entries:
  "defined_entries (selectedDeps unused global answer) =
     new_Set (map (\<lambda>n. (unused @ global) ! nat (digit_value n - 1))
                (filter (in_range (unused @ global)) answer))
   \<and> distinct (selectedDeps unused global answer)
   \<and> (length (unused @ global) = 5 \<longrightarrow>
        selectedDeps unused global ''2,4'' =
          new_Set [Some ((unused @ global) ! 1), Some ((unused @ global) ! 3)])
   \<and> (length (unused @ global) = 5 \<longrightarrow>
        defined_entries (selectedDeps unused global ''2,10'') =
          new_Set [(unused @ global) ! 1, (unused @ global) ! 0])"
proof (intro conjI impI)
  show "distinct (selectedDeps unused global answer)"
    by (simp add: selectedDeps_def new_Set_def set_add_distinct)
  show g: "defined_entries (selectedDeps unused global answer) =
     new_Set (map (\<lambda>n. (unused @ global) ! nat (digit_value n - 1))
                (filter (in_range (unused @ global)) answer))" for answer
  proof -
    have "selectedDeps unused global answer =
        new_Set (map (\<lambda>n. js_index (unused @ global) (digit_value n - 1)) (filter is_digit answer))"
      by (simp add: selectedDeps_def match_digits_def Let_def)
    then show ?thesis
      by (simp add: new_Set_def defined_entries_set_add defined_lookups)
  qed
  have md: "match_digits ''2,4'' = Some ''24''"
    by code_simp
  have dv: "digit_value CHR ''2'' = 2" "digit_value CHR ''4'' = 4" "digit_value CHR ''1'' = 1"
    "digit_value CHR ''0'' = 0"
    by (simp_all add: digit_value_def)
  have dg: "is_digit CHR ''2''" "is_digit CHR ''1''" "is_digit CHR ''0''" "\<not> is_digit CHR '',''"
    by (simp_all add: is_digit_def)
  show "selectedDeps unused global ''2,4'' =
          new_Set [Some ((unused @ global) ! 1), Some ((unused @ global) ! 3)]"
    if "length (unused @ global) = 5"
    using that by (simp add: selectedDeps_def md dv js_index_def)
  show "defined_entries (selectedDeps unused global ''2,10'') =
          new_Set [(unused @ global) ! 1, (unused @ global) ! 0]"
    if "length (unused @ global) = 5"
  proof -
    have "filter (in_range (unused @ global)) ''2,10'' = ''21''"
      using that by (simp add: in_range_def dg dv)
    then show ?thesis
      unfolding g by (simp add: dv)
  qed
qed

theorem selection_entries_witness:
  "length ([''a'', ''b'', ''c''] @ [''d'', ''e'']) = 5
   \<and> selectedDeps [''a'', ''b'', ''c''] [''d'', ''e''] ''2,4'' = [Some ''b'', Some ''d'']
   \<and> defined_entries (selectedDeps [''a'', ''b'', ''c''] [''d'', ''e''] ''2,10'') = [''b'', ''a'']
   \<and> defined_entries (selectedDeps [''a'', ''b'', ''c''] [''d'', ''e''] ''4, 2 and 4'') = [''d'', ''b'']"
proof -
  have "defined_entries (selectedDeps [''a'', ''b'', ''c''] [''d'', ''e''] ''4, 2 and 4'') = [''d'', ''b'']"
    by code_simp
  then show ?thesis
    using selection_entries[of "[''a'', ''b'', ''c'']" "[''d'', ''e'']" "''4, 2 and 4''"]
    by (simp add: new_Set_def)
qed

text \<open>
  The claim as the specification words it fails on \<^verbatim>\<open>2,10\<close>: the selection is not the
  entry at index 1 alone.
\<close>

theorem selection_counterexample:
  "selectedDeps [''a'', ''b'', ''c''] [''d'', ''e''] ''2,10'' = [Some ''b'', Some ''a'', None]
   \<and> selectedDeps [''a'', ''b'', ''c''] [''d'', ''e''] ''2,10'' \<noteq> [Some ''b'']"
  by code_simp

section \<open>Properties of the answer's callback\<close>

text \<open>
  Claim C3, as the code has it. An answer that is not \<^verbatim>\<open>all\<close> and holds no decimal digit
  leaves the world as it was: no command is started and nothing is written. The module
  has no message for an invalid answer.
\<close>

theorem no_digit_no_removal:
  assumes "toLowerCase answer \<noteq> ''all''" and "\<not> list_ex is_digit answer"
  shows "on_answer fl_up unused global answer t1 t2 w = w"
proof -
  have "filter is_digit answer = []"
    using assms(2) by (simp add: list_ex_iff filter_empty_conv)
  then have "selectedDeps unused global answer = []"
    by (simp add: selectedDeps_def match_digits_def new_Set_def)
  then show ?thesis
    using assms(1) by (simp add: on_answer_def remove_deps_def)
qed

theorem no_digit_no_removal_witness:
  "toLowerCase ''none'' \<noteq> ''all'' \<and> \<not> list_ex is_digit ''none''
   \<and> on_answer round_up [''a''] [''g''] ''none'' 0 0 idle = idle"
proof -
  have h: "toLowerCase ''none'' \<noteq> ''all''" "\<not> list_ex is_digit ''none''"
    by code_simp+
  show ?thesis
    using no_digit_no_removal[OF h, of round_up "[''a'']" "[''g'']" 0 0 idle] h by simp
qed

text \<open>
  The claim as the specification words it fails on the answer \<^verbatim>\<open>none\<close>, after which
  nothing has been written; and on the answer \<^verbatim>\<open>7\<close> with two entries listed, after which
  a command has been started.
\<close>

theorem invalid_input_counterexample:
  "toLowerCase ''none'' \<noteq> ''all''
   \<and> out (on_answer round_up [''a''] [''g''] ''none'' 0 0 idle) = []
   \<and> toLowerCase ''7'' \<noteq> ''all''
   \<and> out (on_answer round_up [''a''] [''g''] ''7'' 0 0 idle) = [Exec ''npm uninstall undefined '']"
  by code_simp

text \<open>
  Claim C5. \<^verbatim>\<open>remove\<close> returns as soon as it has started its first command, and the
  callback of \<^verbatim>\<open>rl.question\<close> calls it twice in a row: with one unused dependency and one
  global package, after the answer \<^verbatim>\<open>all\<close> (or \<^verbatim>\<open>1, 2\<close>) two commands are in flight.
\<close>

theorem two_removals_in_flight:
  "on_answer round_up [''a''] [''g''] ''all'' 0 0 idle =
     \<lparr>out = [Exec ''npm uninstall a '', Exec ''npm uninstall g -g''],
      inflight = [\<lparr>job_deps = [Some ''a''], job_global = False, job_startTime = 0, job_index = 0\<rparr>,
                  \<lparr>job_deps = [Some ''g''], job_global = True, job_startTime = 0, job_index = 0\<rparr>]\<rparr>
   \<and> length (inflight (on_answer round_up [''a''] [''g''] ''all'' 0 0 idle)) = 2
   \<and> length (inflight (on_answer round_up [''a''] [''g''] ''1, 2'' 0 0 idle)) = 2"
  by code_simp

end
